theory Spec2Isabelle
  imports Main "HOL-Library.Word"
begin

section \<open>The tokenizer of \<open>tokenizer/simple.go\<close>\<close>

text \<open>
  A shallow embedding of \<open>SimpleTokenizer\<close>. The input is a byte slice; a rune is
  Go's \<open>int32\<close> code point, here an \<open>int\<close> (decoding only produces values between
  0 and 0x10FFFF). Byte offsets and the two counters are Go \<open>int\<close>s that never
  become negative and never exceed the input length plus one; they are \<open>nat\<close>.
  A panic of the Go runtime (index or slice out of range) is the \<open>Inl\<close> branch of
  a sum.
\<close>

type_synonym byte = "8 word"
type_synonym rune = int

datatype error = IndexOutOfRange | SliceOutOfRange

definition MAX_TOKEN_SIZE :: nat where
  "MAX_TOKEN_SIZE = 23"

definition MARKER_PER_TOKENS :: nat where
  "MARKER_PER_TOKENS = 100"

subsection \<open>Go runtime: indexing and slicing\<close>

definition index :: "'a list \<Rightarrow> nat \<Rightarrow> error + 'a" where
  \<comment> \<open>\<open>xs[i]\<close>\<close>
  "index xs i = (if i < length xs then Inr (xs ! i) else Inl IndexOutOfRange)"

definition slice :: "'a list \<Rightarrow> nat \<Rightarrow> nat \<Rightarrow> error + 'a list" where
  \<comment> \<open>\<open>xs[lo:hi]\<close>\<close>
  "slice xs lo hi =
     (if lo \<le> hi \<and> hi \<le> length xs then Inr (take (hi - lo) (drop lo xs))
      else Inl SliceOutOfRange)"

definition sliceFrom :: "'a list \<Rightarrow> nat \<Rightarrow> error + 'a list" where
  \<comment> \<open>\<open>xs[lo:]\<close>\<close>
  "sliceFrom xs lo = (if lo \<le> length xs then Inr (drop lo xs) else Inl SliceOutOfRange)"

subsection \<open>Go library: \<open>unicode/utf8\<close>\<close>

definition RuneError :: rune where
  "RuneError = 0xFFFD"

definition first :: "byte \<Rightarrow> nat" where
  \<comment> \<open>the table \<open>utf8.first\<close>: \<open>as\<close> = 0xF0, \<open>xx\<close> = 0xF1, \<open>s1\<close> .. \<open>s7\<close>\<close>
  "first b =
     (if b < 0x80 then 0xF0
      else if b < 0xC2 then 0xF1
      else if b < 0xE0 then 0x02
      else if b = 0xE0 then 0x13
      else if b < 0xED then 0x03
      else if b = 0xED then 0x23
      else if b < 0xF0 then 0x03
      else if b = 0xF0 then 0x34
      else if b < 0xF4 then 0x04
      else if b = 0xF4 then 0x44
      else 0xF1)"

definition acceptRanges :: "nat \<Rightarrow> byte \<times> byte" where
  \<comment> \<open>the table \<open>utf8.acceptRanges\<close>: the bounds of the second byte\<close>
  "acceptRanges k =
     (if k = 1 then (0xA0, 0xBF)
      else if k = 2 then (0x80, 0x9F)
      else if k = 3 then (0x90, 0xBF)
      else if k = 4 then (0x80, 0x8F)
      else (0x80, 0xBF))"

text \<open>
  \<open>utf8.DecodeRune\<close>: the rune at the head of \<open>p\<close> and its width in bytes. The masks
  and shifts of the Go code are written arithmetically: \<open>p0 & mask2\<close> is
  \<open>uint p0 mod 32\<close>, \<open>b & maskx\<close> is \<open>uint b mod 64\<close>, \<open>x << 6\<close> is \<open>x * 64\<close>, and the
  bit fields that \<open>|\<close> joins are disjoint, so that \<open>|\<close> is \<open>+\<close>.
\<close>

fun DecodeRune :: "byte list \<Rightarrow> rune \<times> nat" where
  "DecodeRune [] = (RuneError, 0)"
| "DecodeRune (p0 # ps) =
     (let x = first p0 in
      if 0xF0 \<le> x then ((if x = 0xF1 then RuneError else uint p0), 1)
      else
        let sz = x mod 8; accept = acceptRanges (x div 16) in
        if length (p0 # ps) < sz then (RuneError, 1)
        else
          let b1 = ps ! 0 in
          if b1 < fst accept \<or> snd accept < b1 then (RuneError, 1)
          else if sz \<le> 2 then (uint p0 mod 32 * 64 + uint b1 mod 64, 2)
          else
            let b2 = ps ! 1 in
            if b2 < 0x80 \<or> 0xBF < b2 then (RuneError, 1)
            else if sz \<le> 3
              then (uint p0 mod 16 * 4096 + uint b1 mod 64 * 64 + uint b2 mod 64, 3)
            else
              let b3 = ps ! 2 in
              if b3 < 0x80 \<or> 0xBF < b3 then (RuneError, 1)
              else (uint p0 mod 8 * 262144 + uint b1 mod 64 * 4096
                      + uint b2 mod 64 * 64 + uint b3 mod 64, 4))"

lemma first_cases:
  "first b = 0xF0 \<or> first b = 0xF1 \<or> first b = 0x02 \<or> first b = 0x13 \<or> first b = 0x03
     \<or> first b = 0x23 \<or> first b = 0x34 \<or> first b = 0x04 \<or> first b = 0x44"
  by (simp add: first_def)

lemma DecodeRune_size_pos: "p \<noteq> [] \<Longrightarrow> 0 < snd (DecodeRune p)"
  by (cases p) (simp_all add: Let_def)

lemma DecodeRune_size_le: "snd (DecodeRune p) \<le> length p"
proof (cases p)
  case Nil
  then show ?thesis by simp
next
  case (Cons p0 ps)
  show ?thesis
    using first_cases [of p0] unfolding Cons
    by (elim disjE) (simp_all add: DecodeRune.simps(2) Let_def Suc_le_eq)
qed

declare DecodeRune.simps(2) [simp del]

text \<open>
  \<open>for pos, rune := range string(input)\<close>: the byte offset and the rune of every
  iteration, in order. An invalid byte is one iteration with \<open>RuneError\<close> and
  width 1, as \<open>DecodeRune\<close> reports it.
\<close>

function range_string :: "nat \<Rightarrow> byte list \<Rightarrow> (nat \<times> rune) list" where
  "range_string pos s =
     (if s = [] then []
      else (pos, fst (DecodeRune s))
             # range_string (pos + snd (DecodeRune s)) (drop (snd (DecodeRune s)) s))"
  by pat_completeness auto
termination
  by (relation "measure (\<lambda>(pos, s). length s)") (auto simp add: DecodeRune_size_pos)

declare range_string.simps [simp del]

text \<open>
  \<open>utf8.AppendRune\<close> (which \<open>strings.Builder.WriteRune\<close> calls): the UTF-8 bytes of a
  rune; a surrogate or a value out of range is written as \<open>RuneError\<close>.
\<close>

definition EncodeRune :: "rune \<Rightarrow> byte list" where
  "EncodeRune r0 =
     (let r = (if r0 < 0 \<or> 0x10FFFF < r0 \<or> (0xD800 \<le> r0 \<and> r0 \<le> 0xDFFF)
               then RuneError else r0) in
      if r \<le> 0x7F then [word_of_int r]
      else if r \<le> 0x7FF then [word_of_int (0xC0 + r div 64), word_of_int (0x80 + r mod 64)]
      else if r \<le> 0xFFFF then
        [word_of_int (0xE0 + r div 4096), word_of_int (0x80 + r div 64 mod 64),
         word_of_int (0x80 + r mod 64)]
      else
        [word_of_int (0xF0 + r div 262144), word_of_int (0x80 + r div 4096 mod 64),
         word_of_int (0x80 + r div 64 mod 64), word_of_int (0x80 + r mod 64)])"

subsection \<open>Go library: \<open>unicode.ToLower\<close> and \<open>strings.ToLower\<close>\<close>

text \<open>
  The lower-case mappings of the Unicode tables for the code points below U+0800, the
  only ones a Latin run can hold: an entry \<open>(lo, hi, step, delta)\<close> maps
  \<open>lo, lo + step, \<dots>, hi\<close> to themselves plus \<open>delta\<close>.
\<close>

definition caseRanges :: "(int \<times> int \<times> int \<times> int) list" where
  "caseRanges =
    [(0x00C0, 0x00D6, 1, 32), (0x00D8, 0x00DE, 1, 32), (0x0100, 0x012E, 2, 1),
     (0x0130, 0x0130, 1, -199), (0x0132, 0x0136, 2, 1), (0x0139, 0x0147, 2, 1),
     (0x014A, 0x0176, 2, 1), (0x0178, 0x0178, 1, -121), (0x0179, 0x017D, 2, 1),
     (0x0181, 0x0181, 1, 210), (0x0182, 0x0184, 2, 1), (0x0186, 0x0186, 1, 206),
     (0x0187, 0x0187, 1, 1), (0x0189, 0x018A, 1, 205), (0x018B, 0x018B, 1, 1),
     (0x018E, 0x018E, 1, 79), (0x018F, 0x018F, 1, 202), (0x0190, 0x0190, 1, 203),
     (0x0191, 0x0191, 1, 1), (0x0193, 0x0193, 1, 205), (0x0194, 0x0194, 1, 207),
     (0x0196, 0x0196, 1, 211), (0x0197, 0x0197, 1, 209), (0x0198, 0x0198, 1, 1),
     (0x019C, 0x019C, 1, 211), (0x019D, 0x019D, 1, 213), (0x019F, 0x019F, 1, 214),
     (0x01A0, 0x01A4, 2, 1), (0x01A6, 0x01A6, 1, 218), (0x01A7, 0x01A7, 1, 1),
     (0x01A9, 0x01A9, 1, 218), (0x01AC, 0x01AC, 1, 1), (0x01AE, 0x01AE, 1, 218),
     (0x01AF, 0x01AF, 1, 1), (0x01B1, 0x01B2, 1, 217), (0x01B3, 0x01B5, 2, 1),
     (0x01B7, 0x01B7, 1, 219), (0x01B8, 0x01B8, 1, 1), (0x01BC, 0x01BC, 1, 1),
     (0x01C4, 0x01C4, 1, 2), (0x01C5, 0x01C5, 1, 1), (0x01C7, 0x01C7, 1, 2),
     (0x01C8, 0x01C8, 1, 1), (0x01CA, 0x01CA, 1, 2), (0x01CB, 0x01DB, 2, 1),
     (0x01DE, 0x01EE, 2, 1), (0x01F1, 0x01F1, 1, 2), (0x01F2, 0x01F4, 2, 1),
     (0x01F6, 0x01F6, 1, -97), (0x01F7, 0x01F7, 1, -56), (0x01F8, 0x021E, 2, 1),
     (0x0220, 0x0220, 1, -130), (0x0222, 0x0232, 2, 1), (0x023A, 0x023A, 1, 10795),
     (0x023B, 0x023B, 1, 1), (0x023D, 0x023D, 1, -163), (0x023E, 0x023E, 1, 10792),
     (0x0241, 0x0241, 1, 1), (0x0243, 0x0243, 1, -195), (0x0244, 0x0244, 1, 69),
     (0x0245, 0x0245, 1, 71), (0x0246, 0x024E, 2, 1), (0x0370, 0x0372, 2, 1),
     (0x0376, 0x0376, 1, 1), (0x037F, 0x037F, 1, 116), (0x0386, 0x0386, 1, 38),
     (0x0388, 0x038A, 1, 37), (0x038C, 0x038C, 1, 64), (0x038E, 0x038F, 1, 63),
     (0x0391, 0x03A1, 1, 32), (0x03A3, 0x03AB, 1, 32), (0x03CF, 0x03CF, 1, 8),
     (0x03D8, 0x03EE, 2, 1), (0x03F4, 0x03F4, 1, -60), (0x03F7, 0x03F7, 1, 1),
     (0x03F9, 0x03F9, 1, -7), (0x03FA, 0x03FA, 1, 1), (0x03FD, 0x03FF, 1, -130),
     (0x0400, 0x040F, 1, 80), (0x0410, 0x042F, 1, 32), (0x0460, 0x0480, 2, 1),
     (0x048A, 0x04BE, 2, 1), (0x04C0, 0x04C0, 1, 15), (0x04C1, 0x04CD, 2, 1),
     (0x04D0, 0x052E, 2, 1), (0x0531, 0x0556, 1, 48)]"

fun lookupCase :: "(int \<times> int \<times> int \<times> int) list \<Rightarrow> rune \<Rightarrow> rune" where
  "lookupCase [] r = r"
| "lookupCase ((lo, hi, step, delta) # rest) r =
     (if lo \<le> r \<and> r \<le> hi \<and> (r - lo) mod step = 0 then r + delta
      else lookupCase rest r)"

definition unicode_ToLower :: "rune \<Rightarrow> rune" where
  "unicode_ToLower r =
     (if r \<le> 0x7F then (if 0x41 \<le> r \<and> r \<le> 0x5A then r + 0x20 else r)
      else lookupCase caseRanges r)"

definition asciiLower :: "byte \<Rightarrow> byte" where
  "asciiLower c = (if 0x41 \<le> c \<and> c \<le> 0x5A then c + 0x20 else c)"

text \<open>
  \<open>strings.ToLower\<close>: a string of ASCII bytes is lower-cased byte by byte; any other
  string goes through \<open>strings.Map(unicode.ToLower, s)\<close>, which writes the encoding of
  the mapped rune for every rune of \<open>s\<close>.
\<close>

definition ToLower :: "byte list \<Rightarrow> byte list" where
  "ToLower s =
     (if list_all (\<lambda>c. c < 0x80) s then map asciiLower s
      else concat (map (\<lambda>(i, c). EncodeRune (unicode_ToLower c)) (range_string 0 s)))"

text \<open>\<open>fmt.Sprintf("%d", n)\<close> for a number that is not negative.\<close>

function decimal :: "nat \<Rightarrow> byte list" where
  "decimal n = (if n < 10 then [0x30 + of_nat n] else decimal (n div 10) @ [0x30 + of_nat (n mod 10)])"
  by pat_completeness auto
termination
  by (relation "measure id") auto

declare decimal.simps [simp del]

subsection \<open>Tokens and the tokenizer state\<close>

record Token =
  TokenBytes :: "byte list"
  TokenPos :: int

definition newToken :: "byte list \<Rightarrow> int \<Rightarrow> Token" where
  \<comment> \<open>\<open>token := Token{}; token.TokenBytes[0] = byte(len(s));
      copy(token.TokenBytes[1:], s); token.TokenPos = pos\<close>\<close>
  "newToken s pos =
     \<lparr>TokenBytes = of_nat (length s) # take MAX_TOKEN_SIZE s
                     @ replicate (MAX_TOKEN_SIZE - length s) 0,
      TokenPos = pos\<rparr>"

text \<open>
  The fields of \<open>SimpleTokenizer\<close> (\<open>Err\<close> is never written and is left out), and
  \<open>emitted\<close>: the tokens passed to \<open>yield\<close> so far, oldest first. The consumer
  \<open>yield\<close> answers from the tokens it has received before and the one it is offered.
\<close>

record SimpleTokenizer =
  input :: "byte list"
  begin' :: nat
  currTokenPos :: nat
  nextMarker :: nat
  latinBuf :: "byte list"
  Done :: bool
  emitted :: "Token list"

type_synonym yieldfn = "Token list \<Rightarrow> Token \<Rightarrow> bool"

definition NewSimpleTokenizer :: "byte list \<Rightarrow> SimpleTokenizer" where
  "NewSimpleTokenizer inp =
     \<lparr>input = inp, begin' = 0, currTokenPos = 0, nextMarker = MARKER_PER_TOKENS,
      latinBuf = [], Done = False, emitted = []\<rparr>"

definition emit :: "Token \<Rightarrow> SimpleTokenizer \<Rightarrow> SimpleTokenizer" where
  "emit token t = t\<lparr>emitted := emitted t @ [token]\<rparr>"

definition isBreakerRune :: "rune \<Rightarrow> bool" where
  "isBreakerRune r = (r < 33 \<or> r = 127 \<or> r = RuneError)"

definition isLatin :: "rune \<Rightarrow> bool" where
  "isLatin r = (r < 0x7FF)"

datatype handler = BeginToken | BreakerToken | LatinToken | CjkToken

subsection \<open>Markers\<close>

definition incrTokenCount :: "SimpleTokenizer \<Rightarrow> nat \<Rightarrow> nat \<Rightarrow> yieldfn \<Rightarrow> SimpleTokenizer" where
  "incrTokenCount t n pos yield =
     (let t1 = t\<lparr>currTokenPos := currTokenPos t + n\<rparr> in
      if nextMarker t1 \<le> currTokenPos t1 then
        let mkStr = [0x5F, 0x4D, 0x41, 0x52, 0x4B, 0x45, 0x52, 0x5F] @ decimal (nextMarker t1);
            token = newToken mkStr (int pos);
            t2 = (if \<not> yield (emitted t1) token then (emit token t1)\<lparr>Done := True\<rparr>
                  else emit token t1)
        in t2\<lparr>nextMarker := nextMarker t2 + MARKER_PER_TOKENS\<rparr>
      else t1)"

subsection \<open>Latin runs\<close>

definition isAlnum :: "byte \<Rightarrow> bool" where
  "isAlnum c = ((0x30 \<le> c \<and> c \<le> 0x39) \<or> (0x61 \<le> c \<and> c \<le> 0x7A) \<or> (0x41 \<le> c \<and> c \<le> 0x5A))"

text \<open>
  The loop of \<open>outputLatin\<close> over \<open>ibuf[i:]\<close>, with \<open>latinBuf\<close> as the accumulator:
  \<open>break\<close> returns the buffer, and \<open>ibuf[i+1]\<close> past the end panics.
\<close>

fun latinLoop :: "byte list \<Rightarrow> byte list \<Rightarrow> error + byte list" where
  "latinLoop [] buf = Inr buf"
| "latinLoop (c # cs) buf =
     (if 127 < c then
        (if MAX_TOKEN_SIZE - 1 \<le> length buf then Inr buf
         else (case cs of
                 [] \<Rightarrow> Inl IndexOutOfRange
               | c1 # rest \<Rightarrow> latinLoop rest (buf @ [c, c1])))
      else
        (if MAX_TOKEN_SIZE \<le> length buf then Inr buf
         else if isAlnum c then latinLoop cs (buf @ [c])
         else latinLoop cs buf))"

definition outputLatin :: "SimpleTokenizer \<Rightarrow> nat \<Rightarrow> yieldfn \<Rightarrow> error + SimpleTokenizer" where
  "outputLatin t pos yield =
     (case slice (input t) (begin' t) pos of
        Inl e \<Rightarrow> Inl e
      | Inr ibuf \<Rightarrow>
          (case latinLoop ibuf [] of
             Inl e \<Rightarrow> Inl e
           | Inr buf \<Rightarrow>
               let t1 = t\<lparr>latinBuf := buf\<rparr> in
               if 1 < length buf then
                 let ls = ToLower buf;
                     token = newToken ls (int (currTokenPos t1))
                 in if \<not> yield (emitted t1) token then Inr ((emit token t1)\<lparr>Done := True\<rparr>)
                    else Inr (incrTokenCount (emit token t1) 1 pos yield)
               else Inr (incrTokenCount t1 1 pos yield)))"

subsection \<open>CJK runs\<close>

function outputCJK_loop ::
  "SimpleTokenizer \<Rightarrow> byte list \<Rightarrow> nat \<Rightarrow> nat \<Rightarrow> nat \<Rightarrow> nat \<Rightarrow> yieldfn \<Rightarrow> error + SimpleTokenizer"
where
  "outputCJK_loop t ibuf ia ib ic id' yield =
     (if ia < id' then
        (case slice ibuf ia id' of
           Inl e \<Rightarrow> Inl e
         | Inr w \<Rightarrow>
             if \<not> yield (emitted t) (newToken w (int (currTokenPos t)))
             then Inr ((emit (newToken w (int (currTokenPos t))) t)\<lparr>Done := True\<rparr>)
             else if Done (incrTokenCount (emit (newToken w (int (currTokenPos t))) t) 1
                             (begin' t + ia) yield)
             then Inr (incrTokenCount (emit (newToken w (int (currTokenPos t))) t) 1
                         (begin' t + ia) yield)
             else
               (case sliceFrom ibuf id' of
                  Inl e \<Rightarrow> Inl e
                | Inr rest \<Rightarrow>
                    outputCJK_loop
                      (incrTokenCount (emit (newToken w (int (currTokenPos t))) t) 1
                         (begin' t + ia) yield)
                      ibuf ib ic id' (id' + snd (DecodeRune rest)) yield))
      else Inr t)"
  by pat_completeness auto
termination
proof (relation "measures [\<lambda>(t, ibuf, ia, ib, ic, id', y). length ibuf - id',
                           \<lambda>(t, ibuf, ia, ib, ic, id', y).
                              (if ic \<noteq> id' then 3 else if ib \<noteq> id' then 2
                               else if ia \<noteq> id' then 1 else 0)]",
       goal_cases)
  case 1
  show ?case by simp
next
  case (2 t ibuf ia ib ic id' yield w rest)
  from 2 have le: "id' \<le> length ibuf" and rest: "rest = drop id' ibuf"
    by (auto simp add: sliceFrom_def split: if_splits)
  show ?case
  proof (cases "rest = []")
    case True
    with 2(1) show ?thesis by auto
  next
    case False
    then have "0 < snd (DecodeRune rest)" by (rule DecodeRune_size_pos)
    moreover have "snd (DecodeRune rest) \<le> length rest" by (rule DecodeRune_size_le)
    ultimately show ?thesis using le rest by auto
  qed
qed

declare outputCJK_loop.simps [simp del]

definition outputCJK :: "SimpleTokenizer \<Rightarrow> nat \<Rightarrow> yieldfn \<Rightarrow> error + SimpleTokenizer" where
  "outputCJK t pos yield =
     (case slice (input t) (begin' t) pos of
        Inl e \<Rightarrow> Inl e
      | Inr ibuf \<Rightarrow>
          let ib = snd (DecodeRune ibuf) in
          (case sliceFrom ibuf ib of
             Inl e \<Rightarrow> Inl e
           | Inr s1 \<Rightarrow>
               let ic = ib + snd (DecodeRune s1) in
               (case sliceFrom ibuf ic of
                  Inl e \<Rightarrow> Inl e
                | Inr s2 \<Rightarrow>
                    let id' = ic + snd (DecodeRune s2) in
                    outputCJK_loop t ibuf 0 ib ic id' yield)))"

subsection \<open>The state machine\<close>

definition beginToken ::
  "SimpleTokenizer \<Rightarrow> nat \<Rightarrow> rune \<Rightarrow> yieldfn \<Rightarrow> error + SimpleTokenizer \<times> handler" where
  "beginToken t pos r yield =
     (if isBreakerRune r then Inr (t\<lparr>begin' := pos\<rparr>, BreakerToken)
      else if isLatin r then Inr (t\<lparr>begin' := pos\<rparr>, LatinToken)
      else Inr (t\<lparr>begin' := pos\<rparr>, CjkToken))"

text \<open>
  In \<open>breakerToken\<close> the test \<open>pos > t.begin+1 || t.input[t.begin] != ' '\<close> reads
  \<open>t.input[t.begin]\<close> only when its left side is false.
\<close>

definition breakerToken ::
  "SimpleTokenizer \<Rightarrow> nat \<Rightarrow> rune \<Rightarrow> yieldfn \<Rightarrow> error + SimpleTokenizer \<times> handler" where
  "breakerToken t pos r yield =
     (if isBreakerRune r then Inr (t, BreakerToken)
      else
        (case (if begin' t + 1 < pos then Inr True
               else (case index (input t) (begin' t) of
                       Inl e \<Rightarrow> Inl e
                     | Inr c \<Rightarrow> Inr (c \<noteq> 0x20))) of
           Inl e \<Rightarrow> Inl e
         | Inr notSingleSpace \<Rightarrow>
             let t1 = (if notSingleSpace then incrTokenCount t 1 pos yield else t) in
             if isLatin r then Inr (t1\<lparr>begin' := pos\<rparr>, LatinToken)
             else Inr (t1\<lparr>begin' := pos\<rparr>, CjkToken)))"

definition latinToken ::
  "SimpleTokenizer \<Rightarrow> nat \<Rightarrow> rune \<Rightarrow> yieldfn \<Rightarrow> error + SimpleTokenizer \<times> handler" where
  "latinToken t pos r yield =
     (if isBreakerRune r then
        (case outputLatin t pos yield of
           Inl e \<Rightarrow> Inl e
         | Inr t1 \<Rightarrow> Inr (t1\<lparr>begin' := pos\<rparr>, BreakerToken))
      else if isLatin r then Inr (t, LatinToken)
      else
        (case outputLatin t pos yield of
           Inl e \<Rightarrow> Inl e
         | Inr t1 \<Rightarrow> Inr (t1\<lparr>begin' := pos\<rparr>, CjkToken)))"

definition cjkToken ::
  "SimpleTokenizer \<Rightarrow> nat \<Rightarrow> rune \<Rightarrow> yieldfn \<Rightarrow> error + SimpleTokenizer \<times> handler" where
  "cjkToken t pos r yield =
     (if isBreakerRune r then
        (case outputCJK t pos yield of
           Inl e \<Rightarrow> Inl e
         | Inr t1 \<Rightarrow> Inr (t1\<lparr>begin' := pos\<rparr>, BreakerToken))
      else Inr (t, CjkToken))"

fun call ::
  "handler \<Rightarrow> SimpleTokenizer \<Rightarrow> nat \<Rightarrow> rune \<Rightarrow> yieldfn \<Rightarrow> error + SimpleTokenizer \<times> handler" where
  "call BeginToken = beginToken"
| "call BreakerToken = breakerToken"
| "call LatinToken = latinToken"
| "call CjkToken = cjkToken"

subsection \<open>\<open>Tokenize\<close>\<close>

text \<open>
  The \<open>for \<dots> range\<close> loop of \<open>Tokenize\<close> either returns (\<open>t.Done\<close> at the head of an
  iteration) or runs out of runes and falls through to the flush. No handler returns
  \<open>nil\<close>, so the \<open>break\<close> of the loop is never taken.
\<close>

datatype loop_exit = Returned SimpleTokenizer | Finished SimpleTokenizer handler

fun scanLoop ::
  "(nat \<times> rune) list \<Rightarrow> handler \<Rightarrow> SimpleTokenizer \<Rightarrow> yieldfn \<Rightarrow> error + loop_exit" where
  "scanLoop [] h t yield = Inr (Finished t h)"
| "scanLoop ((pos, r) # rest) h t yield =
     (if Done t then Inr (Returned t)
      else (case call h t pos r yield of
              Inl e \<Rightarrow> Inl e
            | Inr (t1, h1) \<Rightarrow> scanLoop rest h1 t1 yield))"

definition Tokenize :: "SimpleTokenizer \<Rightarrow> yieldfn \<Rightarrow> error + SimpleTokenizer" where
  "Tokenize t yield =
     (if input t = [] then Inr t
      else
        (case scanLoop (range_string 0 (input t)) BeginToken t yield of
           Inl e \<Rightarrow> Inl e
         | Inr (Returned t1) \<Rightarrow> Inr t1
         | Inr (Finished t1 h) \<Rightarrow>
             (case call h t1 (length (input t1)) 0x20 yield of
                Inl e \<Rightarrow> Inl e
              | Inr (t2, h2) \<Rightarrow> Inr t2)))"

section \<open>Notions used in the statements\<close>

definition cont :: "byte \<Rightarrow> bool" where
  \<comment> \<open>a UTF-8 continuation byte\<close>
  "cont b = (0x80 \<le> uint b \<and> uint b \<le> 0xBF)"

definition strokes :: "byte list" where
  \<comment> \<open>eleven times U+023A, LATIN CAPITAL LETTER A WITH STROKE\<close>
  "strokes = [0xC8, 0xBA, 0xC8, 0xBA, 0xC8, 0xBA, 0xC8, 0xBA, 0xC8, 0xBA, 0xC8, 0xBA,
              0xC8, 0xBA, 0xC8, 0xBA, 0xC8, 0xBA, 0xC8, 0xBA, 0xC8, 0xBA]"


definition markerBytes :: "nat \<Rightarrow> byte list" where
  \<comment> \<open>\<open>_MARKER_<m>\<close>\<close>
  "markerBytes m = [0x5F, 0x4D, 0x41, 0x52, 0x4B, 0x45, 0x52, 0x5F] @ decimal m"

definition marker_inv :: "SimpleTokenizer \<Rightarrow> bool" where
  \<comment> \<open>\<open>nextMarker\<close> is the least multiple of 100 above the counter\<close>
  "marker_inv t =
     (MARKER_PER_TOKENS dvd nextMarker t \<and> currTokenPos t < nextMarker t
      \<and> nextMarker t \<le> currTokenPos t + MARKER_PER_TOKENS)"

definition advances :: "SimpleTokenizer \<Rightarrow> nat list \<Rightarrow> yieldfn \<Rightarrow> SimpleTokenizer" where
  \<comment> \<open>one advance of the counter at each of the byte offsets \<open>ps\<close>, in order\<close>
  "advances t ps yield = foldl (\<lambda>t1 p. incrTokenCount t1 1 p yield) t ps"

definition runes :: "byte list \<Rightarrow> rune list" where
  \<comment> \<open>the code points of a byte string, as \<open>range\<close> yields them\<close>
  "runes s = map snd (range_string 0 s)"

fun latin_run :: "byte list \<Rightarrow> bool" where
  \<comment> \<open>a sequence of ASCII bytes and of two-byte characters\<close>
  "latin_run [] = True"
| "latin_run (c # cs) =
     (if uint c < 0x80 then latin_run cs
      else 0xC2 \<le> uint c \<and> uint c < 0xE0 \<and>
           (case cs of [] \<Rightarrow> False | c1 # rest \<Rightarrow> cont c1 \<and> latin_run rest))"

definition clean :: "byte list \<Rightarrow> bool" where
  \<comment> \<open>every code point of the byte string decodes to a rune that is not a breaker\<close>
  "clean s = list_all (\<lambda>r. \<not> isBreakerRune r) (runes s)"

definition run_of :: "byte list \<Rightarrow> nat \<Rightarrow> nat \<Rightarrow> byte list" where
  \<comment> \<open>the bytes of \<open>inp[b:pos]\<close>\<close>
  "run_of inp b pos = take (pos - b) (drop b inp)"

definition scan_inv :: "byte list \<Rightarrow> handler \<Rightarrow> SimpleTokenizer \<Rightarrow> nat \<Rightarrow> bool" where
  \<comment> \<open>what holds at the head of the iteration at byte offset \<open>pos\<close>, and at the flush\<close>
  "scan_inv inp h t pos =
     (input t = inp \<and> begin' t \<le> pos \<and> pos \<le> length inp \<and>
      (case h of
         BeginToken \<Rightarrow> True
       | BreakerToken \<Rightarrow> begin' t < pos
       | LatinToken \<Rightarrow> latin_run (run_of inp (begin' t) pos)
       | CjkToken \<Rightarrow> clean (run_of inp (begin' t) pos)))"

section \<open>Properties\<close>

lemmas go_defs = index_def slice_def sliceFrom_def first_def acceptRanges_def RuneError_def
  MAX_TOKEN_SIZE_def MARKER_PER_TOKENS_def

lemmas tokenizer_defs = Tokenize_def NewSimpleTokenizer_def beginToken_def breakerToken_def
  latinToken_def cjkToken_def outputLatin_def outputCJK_def incrTokenCount_def emit_def
  newToken_def isBreakerRune_def isLatin_def isAlnum_def

subsection \<open>Facts about \<open>DecodeRune\<close>\<close>

lemma uint_byte_bounds: "0 \<le> uint (b::byte) \<and> uint b < 256"
  using uint_lt2p [of b] by simp

lemma first_uint:
  "first b =
     (if uint b < 0x80 then 0xF0
      else if uint b < 0xC2 then 0xF1
      else if uint b < 0xE0 then 0x02
      else if uint b = 0xE0 then 0x13
      else if uint b < 0xED then 0x03
      else if uint b = 0xED then 0x23
      else if uint b < 0xF0 then 0x03
      else if uint b = 0xF0 then 0x34
      else if uint b < 0xF4 then 0x04
      else if uint b = 0xF4 then 0x44
      else 0xF1)"
  by (simp add: first_def word_less_def word_uint_eq_iff)

lemma mod32_lead: "(194::int) \<le> a \<Longrightarrow> a < 224 \<Longrightarrow> 2 \<le> a mod 32"
  by presburger
lemma mod16_lead: "(225::int) \<le> a \<Longrightarrow> a < 240 \<Longrightarrow> 1 \<le> a mod 16"
  by presburger
lemma mod8_lead: "(241::int) \<le> a \<Longrightarrow> a < 245 \<Longrightarrow> 1 \<le> a mod 8"
  by presburger
lemma mod64_A0: "(160::int) \<le> a \<Longrightarrow> a \<le> 191 \<Longrightarrow> 32 \<le> a mod 64"
  by presburger
lemma mod64_90: "(144::int) \<le> a \<Longrightarrow> a \<le> 191 \<Longrightarrow> 16 \<le> a mod 64"
  by presburger
lemma mod_nonneg_int: "(0::int) \<le> a mod 64" "(0::int) \<le> a mod 32" "(0::int) \<le> a mod 16" "(0::int) \<le> a mod 8"
  by simp_all
lemma mod_upper_int: "(a::int) mod 64 < 64" "(a::int) mod 32 < 32"
  by simp_all

lemma DecodeRune_ascii: "uint p0 < 0x80 \<Longrightarrow> DecodeRune (p0 # ps) = (uint p0, 1)"
  by (simp add: DecodeRune.simps first_uint)

lemma DecodeRune_bad_lead:
  "0x80 \<le> uint p0 \<Longrightarrow> uint p0 < 0xC2 \<or> 0xF4 < uint p0 \<Longrightarrow> DecodeRune (p0 # ps) = (RuneError, 1)"
  by (auto simp add: DecodeRune.simps first_uint)

lemma DecodeRune_lead2:
  assumes "0xC2 \<le> uint p0" "uint p0 < 0xE0"
  shows "DecodeRune (p0 # ps) =
           (if ps = [] \<or> \<not> cont (ps ! 0) then (RuneError, 1)
            else (uint p0 mod 32 * 64 + uint (ps ! 0) mod 64, 2))"
proof -
  have "first p0 = 2" using assms by (simp add: first_uint)
  then show ?thesis
    by (auto simp add: DecodeRune.simps acceptRanges_def cont_def word_less_def word_le_def Let_def)
qed

lemma DecodeRune_lead3:
  assumes "0xE0 \<le> uint p0" "uint p0 < 0xF0"
  shows "DecodeRune (p0 # ps) =
           (if length ps < 2 \<or> \<not> cont (ps ! 0) \<or> \<not> cont (ps ! 1)
               \<or> (uint p0 = 0xE0 \<and> uint (ps ! 0) < 0xA0)
               \<or> (uint p0 = 0xED \<and> 0x9F < uint (ps ! 0))
            then (RuneError, 1)
            else (uint p0 mod 16 * 4096 + uint (ps ! 0) mod 64 * 64 + uint (ps ! 1) mod 64, 3))"
proof -
  consider "uint p0 = 0xE0" | "uint p0 = 0xED" | "uint p0 \<noteq> 0xE0" "uint p0 \<noteq> 0xED" by blast
  then show ?thesis
  proof cases
    case 1
    then have "first p0 = 0x13" by (simp add: first_uint)
    then show ?thesis using 1
      by (auto simp add: DecodeRune.simps acceptRanges_def cont_def word_less_def word_le_def Let_def)
  next
    case 2
    then have "first p0 = 0x23" by (simp add: first_uint)
    then show ?thesis using 2
      by (auto simp add: DecodeRune.simps acceptRanges_def cont_def word_less_def word_le_def Let_def)
  next
    case 3
    then have "first p0 = 0x03" using assms by (simp add: first_uint)
    then show ?thesis using 3
      by (auto simp add: DecodeRune.simps acceptRanges_def cont_def word_less_def word_le_def Let_def)
  qed
qed

lemma DecodeRune_lead4:
  assumes "0xF0 \<le> uint p0" "uint p0 \<le> 0xF4"
  shows "DecodeRune (p0 # ps) =
           (if length ps < 3 \<or> \<not> cont (ps ! 0) \<or> \<not> cont (ps ! 1) \<or> \<not> cont (ps ! 2)
               \<or> (uint p0 = 0xF0 \<and> uint (ps ! 0) < 0x90)
               \<or> (uint p0 = 0xF4 \<and> 0x8F < uint (ps ! 0))
            then (RuneError, 1)
            else (uint p0 mod 8 * 262144 + uint (ps ! 0) mod 64 * 4096
                    + uint (ps ! 1) mod 64 * 64 + uint (ps ! 2) mod 64, 4))"
proof -
  consider "uint p0 = 0xF0" | "uint p0 = 0xF4" | "uint p0 \<noteq> 0xF0" "uint p0 \<noteq> 0xF4" by blast
  then show ?thesis
  proof cases
    case 1
    then have "first p0 = 0x34" by (simp add: first_uint)
    then show ?thesis using 1
      by (auto simp add: DecodeRune.simps acceptRanges_def cont_def word_less_def word_le_def Let_def)
  next
    case 2
    then have "first p0 = 0x44" by (simp add: first_uint)
    then show ?thesis using 2
      by (auto simp add: DecodeRune.simps acceptRanges_def cont_def word_less_def word_le_def Let_def)
  next
    case 3
    then have "first p0 = 0x04" using assms by (simp add: first_uint)
    then show ?thesis using 3
      by (auto simp add: DecodeRune.simps acceptRanges_def cont_def word_less_def word_le_def Let_def)
  qed
qed

lemma DecodeRune_lead_cases:
  obtains (ascii) "uint p0 < 0x80"
  | (bad) "0x80 \<le> uint p0" "uint p0 < 0xC2 \<or> 0xF4 < uint p0"
  | (two) "0xC2 \<le> uint p0" "uint p0 < 0xE0"
  | (three) "0xE0 \<le> uint p0" "uint p0 < 0xF0"
  | (four) "0xF0 \<le> uint p0" "uint p0 \<le> 0xF4"
  by linarith

text \<open>What a decoding that is not \<open>RuneError\<close> says about the bytes and the value.\<close>

lemma DecodeRune_valid:
  assumes "DecodeRune (p0 # ps) = (r, sz)" and "r \<noteq> RuneError"
  shows "(sz = 1 \<and> uint p0 < 0x80 \<and> r = uint p0) \<or>
         (sz = 2 \<and> 0xC2 \<le> uint p0 \<and> uint p0 < 0xE0 \<and> 1 \<le> length ps \<and> cont (ps ! 0)
            \<and> 0x80 \<le> r \<and> r < 0x800) \<or>
         (sz = 3 \<and> 0xE0 \<le> uint p0 \<and> uint p0 < 0xF0 \<and> 2 \<le> length ps \<and> cont (ps ! 0)
            \<and> cont (ps ! 1) \<and> 0x800 \<le> r
            \<and> r = uint p0 mod 16 * 4096 + uint (ps ! 0) mod 64 * 64 + uint (ps ! 1) mod 64) \<or>
         (sz = 4 \<and> 0xF0 \<le> uint p0 \<and> uint p0 \<le> 0xF4 \<and> 3 \<le> length ps \<and> cont (ps ! 0)
            \<and> cont (ps ! 1) \<and> cont (ps ! 2) \<and> 0x10000 \<le> r)"
proof (cases p0 rule: DecodeRune_lead_cases)
  case ascii
  then show ?thesis using assms by (simp add: DecodeRune_ascii)
next
  case bad
  then show ?thesis using assms by (simp add: DecodeRune_bad_lead)
next
  case two
  have "2 \<le> uint p0 mod 32" using two by (rule mod32_lead)
  moreover have "0 \<le> uint (ps ! 0) mod 64" "uint (ps ! 0) mod 64 < 64" "uint p0 mod 32 < 32" by simp_all
  ultimately show ?thesis using assms two
    by (auto simp add: DecodeRune_lead2 [OF two] Suc_le_eq split: if_splits)
next
  case three
  have nn: "0 \<le> uint (ps ! 0) mod 64" "0 \<le> uint (ps ! 1) mod 64" "0 \<le> uint p0 mod 16" by simp_all
  have lo: "0x800 \<le> uint p0 mod 16 * 4096 + uint (ps ! 0) mod 64 * 64 + uint (ps ! 1) mod 64"
    if ok: "\<not> (uint p0 = 0xE0 \<and> uint (ps ! 0) < 0xA0)" "cont (ps ! 0)"
  proof (cases "uint p0 = 0xE0")
    case True
    with ok have "32 \<le> uint (ps ! 0) mod 64" by (intro mod64_A0) (auto simp add: cont_def)
    then show ?thesis using nn by linarith
  next
    case False
    with three have "1 \<le> uint p0 mod 16" by (intro mod16_lead) auto
    then show ?thesis using nn by linarith
  qed
  show ?thesis using assms three lo
    by (auto simp add: DecodeRune_lead3 [OF three] split: if_splits)
next
  case four
  have nn: "0 \<le> uint (ps ! 0) mod 64" "0 \<le> uint (ps ! 1) mod 64" "0 \<le> uint (ps ! 2) mod 64"
    "0 \<le> uint p0 mod 8" by simp_all
  have lo: "0x10000 \<le> uint p0 mod 8 * 262144 + uint (ps ! 0) mod 64 * 4096
                + uint (ps ! 1) mod 64 * 64 + uint (ps ! 2) mod 64"
    if ok: "\<not> (uint p0 = 0xF0 \<and> uint (ps ! 0) < 0x90)" "cont (ps ! 0)"
  proof (cases "uint p0 = 0xF0")
    case True
    with ok have "16 \<le> uint (ps ! 0) mod 64" by (intro mod64_90) (auto simp add: cont_def)
    then show ?thesis using nn by linarith
  next
    case False
    with four have "1 \<le> uint p0 mod 8" by (intro mod8_lead) auto
    then show ?thesis using nn by linarith
  qed
  show ?thesis using assms four lo
    by (auto simp add: DecodeRune_lead4 [OF four] split: if_splits)
qed

text \<open>A decoding that is not \<open>RuneError\<close> reads its own bytes only.\<close>

lemma DecodeRune_append:
  assumes "DecodeRune p = (r, sz)" and "r \<noteq> RuneError"
  shows "DecodeRune (take sz p @ q) = (r, sz)"
proof (cases p)
  case Nil
  with assms show ?thesis by simp
next
  case (Cons p0 ps)
  note v = DecodeRune_valid [OF assms(1) [unfolded Cons] assms(2)]
  show ?thesis
  proof (cases p0 rule: DecodeRune_lead_cases)
    case ascii
    then show ?thesis using assms v unfolding Cons by (auto simp add: DecodeRune_ascii)
  next
    case bad
    then show ?thesis using assms unfolding Cons by (simp add: DecodeRune_bad_lead)
  next
    case two
    then show ?thesis using assms v unfolding Cons
      by (cases ps) (auto simp add: DecodeRune_lead2 [OF two] split: if_splits)
  next
    case three
    then show ?thesis using assms v unfolding Cons
      by (cases ps; cases "tl ps")
         (auto simp add: DecodeRune_lead3 [OF three] split: if_splits)
  next
    case four
    then show ?thesis using assms v unfolding Cons
      by (cases ps; cases "tl ps"; cases "tl (tl ps)")
         (auto simp add: DecodeRune_lead4 [OF four] split: if_splits)
  qed
qed

lemma DecodeRune_space: "fst (DecodeRune p) = 0x20 \<longleftrightarrow> p \<noteq> [] \<and> hd p = 0x20"
proof (cases p)
  case Nil
  then show ?thesis by (simp add: RuneError_def)
next
  case (Cons p0 ps)
  show ?thesis
  proof
    assume a: "fst (DecodeRune p) = 0x20"
    obtain r sz where d: "DecodeRune (p0 # ps) = (r, sz)" by (cases "DecodeRune (p0 # ps)")
    with a Cons have r: "r = 0x20" by simp
    then have "r \<noteq> RuneError" by (simp add: RuneError_def)
    from DecodeRune_valid [OF d this] r have "uint p0 = 0x20" by auto
    then have "p0 = 0x20" by (simp add: word_uint_eq_iff)
    with Cons show "p \<noteq> [] \<and> hd p = 0x20" by simp
  next
    assume "p \<noteq> [] \<and> hd p = 0x20"
    with Cons have "p0 = 0x20" by simp
    then show "fst (DecodeRune p) = 0x20" unfolding Cons by (simp add: DecodeRune_ascii)
  qed
qed

subsection \<open>Rune classification\<close>

text \<open>
  Claim C7. A rune is a breaker exactly when it is below 33, or 127, or the decode-error
  sentinel \<open>0xFFFD\<close>; a rune that is not a breaker is Latin-class exactly when it is
  below \<open>0x7FF\<close>, and CJK-class otherwise. The first handler dispatches on exactly
  these three classes, in this order.
\<close>

theorem rune_classification:
  "(isBreakerRune r \<longleftrightarrow> r < 33 \<or> r = 127 \<or> r = 0xFFFD) \<and>
   (isLatin r \<longleftrightarrow> r < 0x7FF) \<and>
   beginToken t pos r yield =
     Inr (t\<lparr>begin' := pos\<rparr>,
          if r < 33 \<or> r = 127 \<or> r = 0xFFFD then BreakerToken
          else if r < 0x7FF then LatinToken
          else CjkToken)"
  by (simp add: isBreakerRune_def isLatin_def RuneError_def beginToken_def)

theorem rune_classification_witness:
  "\<not> isBreakerRune 0x7FF \<and> \<not> isLatin 0x7FF \<and>
   beginToken (NewSimpleTokenizer []) 0 0x7FF (\<lambda>h tok. True) =
     Inr ((NewSimpleTokenizer [])\<lparr>begin' := 0\<rparr>, CjkToken)"
  using rune_classification [of "0x7FF" "NewSimpleTokenizer []" 0 "\<lambda>h tok. True"]
  by simp

subsection \<open>Lower-casing after the size checks\<close>

text \<open>
  \<open>outputLatin\<close> bounds \<open>latinBuf\<close> by \<open>MAX_TOKEN_SIZE\<close> and tests its length
  before \<open>strings.ToLower\<close> runs, and \<open>strings.ToLower\<close> can change the number of
  bytes: U+023A (2 bytes) becomes U+2C65 (3 bytes), U+0130 (2 bytes) becomes \<open>i\<close>.
\<close>

lemma DecodeRune_stroke: "DecodeRune (0xC8 # 0xBA # rest) = (0x23A, 2)"
  by (simp add: DecodeRune.simps go_defs)

lemma range_string_strokes:
  "range_string 0 strokes =
     [(0, 0x23A), (2, 0x23A), (4, 0x23A), (6, 0x23A), (8, 0x23A), (10, 0x23A),
      (12, 0x23A), (14, 0x23A), (16, 0x23A), (18, 0x23A), (20, 0x23A)]"
  unfolding strokes_def
  by (simp add: range_string.simps DecodeRune_stroke)

lemma unicode_ToLower_stroke: "unicode_ToLower 0x23A = 0x2C65"
  by (simp add: unicode_ToLower_def caseRanges_def)

lemma EncodeRune_small_stroke: "EncodeRune 0x2C65 = [0xE2, 0xB1, 0xA5]"
  by (simp add: EncodeRune_def)

lemma ToLower_strokes:
  "ToLower strokes =
     [0xE2, 0xB1, 0xA5, 0xE2, 0xB1, 0xA5, 0xE2, 0xB1, 0xA5, 0xE2, 0xB1, 0xA5,
      0xE2, 0xB1, 0xA5, 0xE2, 0xB1, 0xA5, 0xE2, 0xB1, 0xA5, 0xE2, 0xB1, 0xA5,
      0xE2, 0xB1, 0xA5, 0xE2, 0xB1, 0xA5, 0xE2, 0xB1, 0xA5]"
  by (simp add: ToLower_def range_string_strokes unicode_ToLower_stroke EncodeRune_small_stroke)
     (simp add: strokes_def)

lemma latinLoop_strokes: "latinLoop strokes [] = Inr strokes"
  by (simp add: strokes_def MAX_TOKEN_SIZE_def)

lemma length_strokes: "length strokes = 22" "strokes \<noteq> []"
  by (simp_all add: strokes_def)

text \<open>
  Claim C1 (the recorded payload length of every emitted token is between 1 and 23, and
  truncation never cuts a character) fails on the code. On the 22 bytes of eleven
  U+023A, with a consumer that takes every token, the one token emitted records the
  length 33 in its first byte, and its 23 payload bytes end with the first two bytes
  \<open>E2 B1\<close> of the eighth three-byte character.
\<close>

theorem lowercase_growth_overflows_token:
  "map_sum id (\<lambda>t. map TokenBytes (emitted t))
     (Tokenize (NewSimpleTokenizer strokes) (\<lambda>h tok. True)) =
   Inr [[33, 0xE2, 0xB1, 0xA5, 0xE2, 0xB1, 0xA5, 0xE2, 0xB1, 0xA5, 0xE2, 0xB1, 0xA5,
         0xE2, 0xB1, 0xA5, 0xE2, 0xB1, 0xA5, 0xE2, 0xB1, 0xA5, 0xE2, 0xB1]]
   \<and> MAX_TOKEN_SIZE < 33"
  apply (simp add: Tokenize_def NewSimpleTokenizer_def range_string_strokes)
  apply (simp add: beginToken_def latinToken_def breakerToken_def isBreakerRune_def
      isLatin_def RuneError_def)
  apply (simp add: outputLatin_def slice_def)
  apply (simp add: latinLoop_strokes ToLower_strokes length_strokes incrTokenCount_def
      emit_def newToken_def MAX_TOKEN_SIZE_def MARKER_PER_TOKENS_def)
  done

lemma range_string_dotted_I: "range_string 0 [0xC4, 0xB0] = [(0, 0x130)]"
  by (simp add: range_string.simps DecodeRune.simps go_defs)

lemma ToLower_dotted_I: "ToLower [0xC4, 0xB0] = [0x69]"
  by (simp add: ToLower_def range_string_dotted_I unicode_ToLower_def caseRanges_def
      EncodeRune_def)

text \<open>
  Claim C5 (a closed Latin run emits a token exactly when the normalized result is longer
  than one byte, and advances the counter by one either way) fails on the code. On
  the two bytes of U+0130, LATIN CAPITAL LETTER I WITH DOT ABOVE, the normalized result
  is the single byte \<open>i\<close>, and it is emitted, at position 0, with the recorded length 1;
  the counter advances to 1.
\<close>

theorem dotted_I_single_byte_token:
  "ToLower [0xC4, 0xB0] = [0x69] \<and>
   map_sum id (\<lambda>t. (emitted t, currTokenPos t))
     (Tokenize (NewSimpleTokenizer [0xC4, 0xB0]) (\<lambda>h tok. True)) =
   Inr ([newToken [0x69] 0], 1)"
  apply (simp add: ToLower_dotted_I Tokenize_def NewSimpleTokenizer_def range_string_dotted_I)
  apply (simp add: beginToken_def latinToken_def isBreakerRune_def isLatin_def RuneError_def)
  apply (simp add: outputLatin_def slice_def MAX_TOKEN_SIZE_def ToLower_dotted_I
      incrTokenCount_def emit_def MARKER_PER_TOKENS_def)
  done

subsection \<open>Cancellation\<close>

lemma range_string_ab_zhong:
  "range_string 0 [0x61, 0x62, 0xE4, 0xB8, 0xAD] = [(0, 0x61), (1, 0x62), (2, 0x4E2D)]"
  by (simp add: range_string.simps DecodeRune.simps go_defs)

text \<open>
  Claim C8 (once the consumer declines a token, nothing more is classified or
  constructed, the flush at the end of the input included) fails on the code. On
  \<open>ab\<close> followed by U+4E2D, with a consumer that declines the first token it is
  offered, \<open>outputLatin\<close> sets \<open>Done\<close> at the last rune of the input; the loop has no
  iteration left to test \<open>Done\<close>, the flush runs, and \<open>outputCJK\<close> constructs a second
  token and passes it to the consumer.
\<close>

theorem flush_runs_after_cancellation:
  "map_sum id (\<lambda>t. (emitted t, Done t))
     (Tokenize (NewSimpleTokenizer [0x61, 0x62, 0xE4, 0xB8, 0xAD]) (\<lambda>h tok. False)) =
   Inr ([newToken [0x61, 0x62] 0, newToken [0xE4, 0xB8, 0xAD] 0], True)"
  by (simp add: range_string_ab_zhong tokenizer_defs go_defs DecodeRune.simps ToLower_def
      asciiLower_def outputCJK_loop.simps)
subsection \<open>Markers\<close>

lemma marker_inv_New: "marker_inv (NewSimpleTokenizer inp)"
  by (simp add: marker_inv_def NewSimpleTokenizer_def MARKER_PER_TOKENS_def)

lemma crossed_multiple:
  fixes c n M :: nat
  assumes "100 dvd M" "c < M" "M \<le> c + 100" "n \<le> 100"
  shows "M \<le> c + n \<Longrightarrow> 100 * ((c + n) div 100) = M"
    and "\<not> M \<le> c + n \<Longrightarrow> 100 * ((c + n) div 100) \<le> c"
proof -
  from assms(1) obtain q where q: "M = 100 * q" by (auto simp add: dvd_def)
  show "100 * ((c + n) div 100) = M" if "M \<le> c + n"
  proof -
    have "(c + n) div 100 = q"
      using that assms(2-4) unfolding q by (intro div_nat_eqI) simp_all
    then show ?thesis by (simp add: q)
  qed
  show "100 * ((c + n) div 100) \<le> c" if "\<not> M \<le> c + n"
  proof -
    from assms(2) have q1: "0 < q" unfolding q by (cases q) simp_all
    have "(c + n) div 100 = q - 1"
      using that assms(2-4) q1 unfolding q by (intro div_nat_eqI) (simp_all add: algebra_simps)
    then show ?thesis using assms(3) q1 unfolding q by (simp add: algebra_simps)
  qed
qed

lemma reach_multiple:
  fixes c :: nat
  shows "(c < 100 * ((c + 1) div 100)) = (100 dvd (c + 1))"
    and "100 dvd (c + 1) \<Longrightarrow> 100 * ((c + 1) div 100) = c + 1"
proof -
  have e: "100 * ((c + 1) div 100) + (c + 1) mod 100 = c + 1" by simp
  have r: "(c + 1) mod 100 < 100" by simp
  have d: "(100 dvd (c + 1)) = ((c + 1) mod 100 = 0)" by (simp add: dvd_eq_mod_eq_0)
  show "(c < 100 * ((c + 1) div 100)) = (100 dvd (c + 1))"
    unfolding d using e r by linarith
  show "100 dvd (c + 1) \<Longrightarrow> 100 * ((c + 1) div 100) = c + 1"
    unfolding d using e by linarith
qed

lemma incrTokenCount_step:
  assumes inv: "marker_inv t" and n: "n \<le> MARKER_PER_TOKENS"
  shows "currTokenPos (incrTokenCount t n pos yield) = currTokenPos t + n"
    and "currTokenPos t < 100 * ((currTokenPos t + n) div 100) \<Longrightarrow>
           emitted (incrTokenCount t n pos yield) =
             emitted t @ [newToken (markerBytes (100 * ((currTokenPos t + n) div 100))) (int pos)]
           \<and> nextMarker (incrTokenCount t n pos yield) = 100 * ((currTokenPos t + n) div 100) + 100"
    and "\<not> currTokenPos t < 100 * ((currTokenPos t + n) div 100) \<Longrightarrow>
           emitted (incrTokenCount t n pos yield) = emitted t
           \<and> nextMarker (incrTokenCount t n pos yield) = nextMarker t"
    and "marker_inv (incrTokenCount t n pos yield)"
proof -
  let ?c = "currTokenPos t" and ?M = "nextMarker t"
  from inv n have h: "100 dvd ?M" "?c < ?M" "?M \<le> ?c + 100" "n \<le> 100"
    by (simp_all add: marker_inv_def MARKER_PER_TOKENS_def)
  note cm = crossed_multiple [OF h]
  show "currTokenPos (incrTokenCount t n pos yield) = ?c + n"
    by (simp add: incrTokenCount_def Let_def emit_def)
  show "emitted (incrTokenCount t n pos yield) =
             emitted t @ [newToken (markerBytes (100 * ((?c + n) div 100))) (int pos)]
           \<and> nextMarker (incrTokenCount t n pos yield) = 100 * ((?c + n) div 100) + 100"
    if "?c < 100 * ((?c + n) div 100)"
  proof -
    from that cm(2) have le: "?M \<le> ?c + n" by force
    with cm(1) have "100 * ((?c + n) div 100) = ?M" by simp
    with le show ?thesis
      by (simp add: incrTokenCount_def Let_def emit_def markerBytes_def MARKER_PER_TOKENS_def)
  qed
  show "emitted (incrTokenCount t n pos yield) = emitted t
           \<and> nextMarker (incrTokenCount t n pos yield) = nextMarker t"
    if "\<not> ?c < 100 * ((?c + n) div 100)"
  proof -
    from that cm(1) h(2) have "\<not> ?M \<le> ?c + n" by force
    then show ?thesis by (simp add: incrTokenCount_def Let_def)
  qed
  show "marker_inv (incrTokenCount t n pos yield)"
    using h by (auto simp add: incrTokenCount_def Let_def emit_def marker_inv_def MARKER_PER_TOKENS_def)
qed

lemma incrTokenCount_other_fields [simp]:
  "input (incrTokenCount t n pos yield) = input t"
  "begin' (incrTokenCount t n pos yield) = begin' t"
  "latinBuf (incrTokenCount t n pos yield) = latinBuf t"
  by (simp_all add: incrTokenCount_def Let_def emit_def)

lemma advances_snoc:
  "advances t (ps @ [p]) yield = incrTokenCount (advances t ps yield) 1 p yield"
  by (simp add: advances_def)

lemma advances_markers:
  assumes "marker_inv t"
  shows "marker_inv (advances t ps yield) \<and>
         currTokenPos (advances t ps yield) = currTokenPos t + length ps \<and>
         emitted (advances t ps yield) =
           emitted t @ map (\<lambda>k. newToken (markerBytes (currTokenPos t + k + 1)) (int (ps ! k)))
                         (filter (\<lambda>k. 100 dvd (currTokenPos t + k + 1)) [0..<length ps])"
proof (induction ps rule: rev_induct)
  case Nil
  show ?case using assms by (simp add: advances_def)
next
  case (snoc p ps)
  let ?t = "advances t ps yield"
  from snoc have inv: "marker_inv ?t" and c: "currTokenPos ?t = currTokenPos t + length ps"
    and e: "emitted ?t =
           emitted t @ map (\<lambda>k. newToken (markerBytes (currTokenPos t + k + 1)) (int (ps ! k)))
                         (filter (\<lambda>k. 100 dvd (currTokenPos t + k + 1)) [0..<length ps])"
    by simp_all
  have one: "(1::nat) \<le> MARKER_PER_TOKENS" by (simp add: MARKER_PER_TOKENS_def)
  note st = incrTokenCount_step [OF inv one, of p yield]
  note m = reach_multiple(1) [of "currTokenPos ?t"]
  note m2 = reach_multiple(2) [of "currTokenPos ?t"]
  have map_eq: "map (\<lambda>k. newToken (markerBytes (currTokenPos t + k + 1)) (int ((ps @ [p]) ! k)))
                         (filter (\<lambda>k. 100 dvd (currTokenPos t + k + 1)) [0..<length ps])
       = map (\<lambda>k. newToken (markerBytes (currTokenPos t + k + 1)) (int (ps ! k)))
                         (filter (\<lambda>k. 100 dvd (currTokenPos t + k + 1)) [0..<length ps])"
    by (rule map_cong) (auto simp add: nth_append)
  show ?case
  proof (cases "100 dvd (currTokenPos ?t + 1)")
    case True
    with st(2) m m2 have "emitted (incrTokenCount ?t 1 p yield) =
        emitted ?t @ [newToken (markerBytes (currTokenPos ?t + 1)) (int p)]" by simp
    with True st(1,4) c e map_eq show ?thesis
      by (simp add: advances_snoc add.commute add.left_commute)
  next
    case False
    with st(3) m have "emitted (incrTokenCount ?t 1 p yield) = emitted ?t" by simp
    with False st(1,4) c e map_eq show ?thesis
      by (simp add: advances_snoc add.commute add.left_commute)
  qed
qed

text \<open>
  Claim C3. In a state where \<open>nextMarker\<close> is the least multiple of 100 above the counter
  (as it is from \<open>NewSimpleTokenizer\<close> on), an advance of the counter by \<open>n\<close> that reaches
  or crosses a multiple \<open>m\<close> of 100 passes exactly one token to the consumer, with the
  payload \<open>_MARKER_m\<close> and the byte offset \<open>pos\<close> as its position, and moves
  \<open>nextMarker\<close> to \<open>m + 100\<close>; any other advance passes nothing and leaves \<open>nextMarker\<close>
  alone. The relation between the two counters holds again afterwards, so that over
  any sequence of advances by one, at the byte offsets \<open>ps\<close>, the markers are those of
  the multiples of 100 reached, each once and in order.
\<close>

theorem marker_on_crossing:
  assumes "marker_inv t" and "n \<le> MARKER_PER_TOKENS"
  shows "marker_inv (NewSimpleTokenizer inp) \<and>
         currTokenPos (incrTokenCount t n pos yield) = currTokenPos t + n \<and>
         (if currTokenPos t < 100 * ((currTokenPos t + n) div 100)
          then emitted (incrTokenCount t n pos yield) =
                 emitted t @ [newToken (markerBytes (100 * ((currTokenPos t + n) div 100)))
                                (int pos)]
               \<and> nextMarker (incrTokenCount t n pos yield) =
                   100 * ((currTokenPos t + n) div 100) + 100
          else emitted (incrTokenCount t n pos yield) = emitted t
               \<and> nextMarker (incrTokenCount t n pos yield) = nextMarker t) \<and>
         marker_inv (incrTokenCount t n pos yield) \<and>
         emitted (advances t ps yield) =
           emitted t @ map (\<lambda>k. newToken (markerBytes (currTokenPos t + k + 1)) (int (ps ! k)))
                         (filter (\<lambda>k. 100 dvd (currTokenPos t + k + 1)) [0..<length ps])"
  using incrTokenCount_step [OF assms, of pos yield] advances_markers [OF assms(1), of ps yield]
    marker_inv_New [of inp]
  by simp

lemma markerBytes_100:
  "markerBytes 100 = [0x5F, 0x4D, 0x41, 0x52, 0x4B, 0x45, 0x52, 0x5F, 0x31, 0x30, 0x30]"
  by (simp add: markerBytes_def decimal.simps)

theorem marker_on_crossing_witness:
  "marker_inv ((NewSimpleTokenizer [])\<lparr>currTokenPos := 99\<rparr>) \<and>
   emitted (incrTokenCount ((NewSimpleTokenizer [])\<lparr>currTokenPos := 99\<rparr>) 1 7 (\<lambda>h tok. True)) =
     [newToken [0x5F, 0x4D, 0x41, 0x52, 0x4B, 0x45, 0x52, 0x5F, 0x31, 0x30, 0x30] 7] \<and>
   nextMarker (incrTokenCount ((NewSimpleTokenizer [])\<lparr>currTokenPos := 99\<rparr>) 1 7 (\<lambda>h tok. True))
     = 200"
proof -
  have inv: "marker_inv ((NewSimpleTokenizer [])\<lparr>currTokenPos := 99\<rparr>)"
    by (simp add: marker_inv_def NewSimpleTokenizer_def MARKER_PER_TOKENS_def)
  have one: "(1::nat) \<le> MARKER_PER_TOKENS" by (simp add: MARKER_PER_TOKENS_def)
  show ?thesis
    using inv marker_on_crossing [OF inv one, of "[]" 7 "\<lambda>h tok. True" "[]"]
    by (simp add: markerBytes_100 NewSimpleTokenizer_def)
qed

subsection \<open>Breaker runs\<close>

lemma incrTokenCount_currTokenPos [simp]:
  "currTokenPos (incrTokenCount t n pos yield) = currTokenPos t + n"
  by (simp add: incrTokenCount_def Let_def emit_def)

lemma range_string_Nil_iff: "range_string pos s = [] \<longleftrightarrow> s = []"
  by (subst range_string.simps) simp

lemma runes_single_space: "runes s = [0x20] \<longleftrightarrow> s = [0x20]"
proof
  assume a: "runes s = [0x20]"
  then have ne: "s \<noteq> []" by (auto simp add: runes_def range_string.simps)
  from a ne have f: "fst (DecodeRune s) = 0x20"
    and r: "range_string (snd (DecodeRune s)) (drop (snd (DecodeRune s)) s) = []"
    by (simp_all add: runes_def range_string.simps [of 0 s])
  from f have h: "hd s = 0x20" by (simp add: DecodeRune_space)
  with ne have "DecodeRune s = (0x20, 1)" by (cases s) (simp_all add: DecodeRune_ascii)
  with r have "drop 1 s = []" by (simp add: range_string_Nil_iff)
  with ne h show "s = [0x20]" by (cases s) simp_all
next
  assume "s = [0x20]"
  then show "runes s = [0x20]"
    by (simp add: runes_def range_string.simps DecodeRune_ascii)
qed

text \<open>
  Claim C4. When a character that is not a breaker arrives in the breaker state, the run
  that it closes is \<open>input[begin:pos]\<close>. If the characters of that run are exactly one
  space, the counter stays; otherwise (more than one character, or a character other
  than the space) it advances by exactly 1. No index is out of range.
\<close>

theorem breaker_run_advance:
  assumes "\<not> isBreakerRune r" and "begin' t < pos" and "pos \<le> length (input t)"
  shows "\<exists>t1 h. breakerToken t pos r yield = Inr (t1, h) \<and>
           currTokenPos t1 =
             currTokenPos t
               + (if runes (take (pos - begin' t) (drop (begin' t) (input t))) = [0x20]
                  then 0 else 1)"
proof (cases "begin' t + 1 < pos")
  case True
  then have "2 \<le> length (take (pos - begin' t) (drop (begin' t) (input t)))"
    using assms by simp
  then have "length (take (pos - begin' t) (drop (begin' t) (input t))) \<noteq> length [0x20 :: byte]"
    by (simp add: min_def)
  then have "take (pos - begin' t) (drop (begin' t) (input t)) \<noteq> [0x20]" by metis
  then show ?thesis using True assms(1)
    by (simp add: breakerToken_def runes_single_space Let_def)
next
  case False
  with assms have p: "pos = begin' t + 1" and lt: "begin' t < length (input t)" by simp_all
  have run: "take (Suc 0) (drop (begin' t) (input t)) = [input t ! begin' t]"
    by (subst Cons_nth_drop_Suc [symmetric, OF lt]) simp
  show ?thesis using assms(1) lt
    by (simp add: breakerToken_def runes_single_space run index_def p Let_def)
qed

theorem breaker_run_advance_witness:
  "\<exists>t1 h. breakerToken ((NewSimpleTokenizer [0x61, 0x09, 0x62])\<lparr>begin' := 1, currTokenPos := 5\<rparr>)
             2 0x62 (\<lambda>h tok. True) = Inr (t1, h) \<and> currTokenPos t1 = 6"
  using breaker_run_advance [of "0x62"
      "(NewSimpleTokenizer [0x61, 0x09, 0x62])\<lparr>begin' := 1, currTokenPos := 5\<rparr>" 2
      "\<lambda>h tok. True"]
  by (simp add: isBreakerRune_def RuneError_def NewSimpleTokenizer_def runes_single_space)

subsection \<open>Latin and CJK runs break differently\<close>

lemma range_string_bi_2B:
  "range_string 0 [0xE7, 0xAC, 0x94, 0x32, 0x42] = [(0, 0x7B14), (3, 0x32), (4, 0x42)]"
  by (simp add: range_string.simps DecodeRune.simps go_defs)

lemma Tokenize_bi_2B:
  "map_sum id emitted (Tokenize (NewSimpleTokenizer [0xE7, 0xAC, 0x94, 0x32, 0x42]) (\<lambda>h tok. True))
     = Inr [newToken [0xE7, 0xAC, 0x94, 0x32, 0x42] 0, newToken [0x32, 0x42] 1, newToken [0x42] 2]"
  by (simp add: range_string_bi_2B tokenizer_defs go_defs DecodeRune.simps outputCJK_loop.simps)

text \<open>
  Claim C6. In the Latin state a CJK-class character closes the run (\<open>outputLatin\<close>
  runs on \<open>input[begin:pos]\<close>, the run start moves to \<open>pos\<close>) and the machine enters the
  CJK state. In the CJK state a Latin-class character changes nothing: no output, the
  run start stays, and the machine stays in the CJK state; so windows hold ASCII
  letters and digits beside logographic characters, as on U+7B14 followed by \<open>2B\<close>,
  whose windows are U+7B14 \<open>2B\<close>, then \<open>2B\<close>, then \<open>B\<close>.
\<close>

theorem run_breaking_asymmetry:
  "(\<not> isBreakerRune r \<and> \<not> isLatin r \<longrightarrow>
      latinToken t pos r yield =
        (case outputLatin t pos yield of
           Inl e \<Rightarrow> Inl e
         | Inr t1 \<Rightarrow> Inr (t1\<lparr>begin' := pos\<rparr>, CjkToken))) \<and>
   (\<not> isBreakerRune r \<and> isLatin r \<longrightarrow> cjkToken t pos r yield = Inr (t, CjkToken)) \<and>
   map_sum id emitted
     (Tokenize (NewSimpleTokenizer [0xE7, 0xAC, 0x94, 0x32, 0x42]) (\<lambda>h tok. True)) =
     Inr [newToken [0xE7, 0xAC, 0x94, 0x32, 0x42] 0, newToken [0x32, 0x42] 1,
          newToken [0x42] 2]"
  by (simp add: latinToken_def cjkToken_def Tokenize_bi_2B)

theorem run_breaking_asymmetry_witness:
  "\<not> isBreakerRune 0x4E2D \<and> \<not> isLatin 0x4E2D \<and>
   latinToken (NewSimpleTokenizer [0x61, 0xE4, 0xB8, 0xAD]) 1 0x4E2D (\<lambda>h tok. True) =
     (case outputLatin (NewSimpleTokenizer [0x61, 0xE4, 0xB8, 0xAD]) 1 (\<lambda>h tok. True) of
        Inl e \<Rightarrow> Inl e
      | Inr t1 \<Rightarrow> Inr (t1\<lparr>begin' := 1\<rparr>, CjkToken)) \<and>
   \<not> isBreakerRune 0x32 \<and> isLatin 0x32 \<and>
   cjkToken (NewSimpleTokenizer [0xE7, 0xAC, 0x94, 0x32, 0x42]) 3 0x32 (\<lambda>h tok. True) =
     Inr (NewSimpleTokenizer [0xE7, 0xAC, 0x94, 0x32, 0x42], CjkToken)"
  using run_breaking_asymmetry [of "0x4E2D" "NewSimpleTokenizer [0x61, 0xE4, 0xB8, 0xAD]" 1 "\<lambda>h tok. True"]
    run_breaking_asymmetry [of "0x32" "NewSimpleTokenizer [0xE7, 0xAC, 0x94, 0x32, 0x42]" 3 "\<lambda>h tok. True"]
  by (simp add: isBreakerRune_def isLatin_def RuneError_def)

subsection \<open>Runs\<close>

lemma range_string_shift:
  "map snd (range_string pos s) = map snd (range_string 0 s)"
proof (induction "length s" arbitrary: pos s rule: less_induct)
  case less
  show ?case
  proof (cases "s = []")
    case True
    then show ?thesis by (simp add: range_string.simps)
  next
    case False
    let ?k = "snd (DecodeRune s)"
    have "length (drop ?k s) < length s"
      using False DecodeRune_size_pos [of s] by simp
    then have "map snd (range_string (pos + ?k) (drop ?k s)) = map snd (range_string 0 (drop ?k s))"
      and "map snd (range_string (0 + ?k) (drop ?k s)) = map snd (range_string 0 (drop ?k s))"
      using less by blast+
    then show ?thesis using False
      by (simp add: range_string.simps [of pos s] range_string.simps [of 0 s])
  qed
qed

lemma runes_Nil [simp]: "runes [] = []"
  by (simp add: runes_def range_string.simps)

lemma runes_step:
  "s \<noteq> [] \<Longrightarrow> runes s = fst (DecodeRune s) # runes (drop (snd (DecodeRune s)) s)"
  unfolding runes_def
  by (subst range_string.simps) (simp add: range_string_shift [of "snd (DecodeRune s)"])

lemma runes_chunk:
  assumes "DecodeRune p = (r, sz)" and "r \<noteq> RuneError"
  shows "runes (take sz p) = [r]"
proof -
  from assms have ne: "p \<noteq> []" by (auto simp add: RuneError_def)
  then have pos: "0 < sz" using DecodeRune_size_pos [of p] assms by simp
  have le: "sz \<le> length p" using DecodeRune_size_le [of p] assms by simp
  have d: "DecodeRune (take sz p) = (r, sz)"
    using DecodeRune_append [OF assms, of "[]"] by simp
  have "take sz p \<noteq> []" using ne pos by (cases p) auto
  then show ?thesis using d le by (simp add: runes_step)
qed

lemma runes_append:
  assumes "clean bs"
  shows "runes (bs @ cs) = runes bs @ runes cs"
  using assms
proof (induction "length bs" arbitrary: bs rule: less_induct)
  case less
  show ?case
  proof (cases "bs = []")
    case True
    then show ?thesis by simp
  next
    case False
    obtain r sz where d: "DecodeRune bs = (r, sz)" by (cases "DecodeRune bs")
    from less.prems False d have nb: "\<not> isBreakerRune r" and cl: "clean (drop sz bs)"
      by (simp_all add: clean_def runes_step)
    then have ne: "r \<noteq> RuneError" by (auto simp add: isBreakerRune_def)
    have le: "sz \<le> length bs" using DecodeRune_size_le [of bs] d by simp
    have pos: "0 < sz" using DecodeRune_size_pos [OF False] d by simp
    have "DecodeRune (take sz bs @ (drop sz bs @ cs)) = (r, sz)"
      by (rule DecodeRune_append [OF d ne])
    then have d2: "DecodeRune (bs @ cs) = (r, sz)" by (simp flip: append_assoc)
    have "length (drop sz bs) < length bs" using False pos by simp
    from less.hyps [OF this cl] have "runes (drop sz bs @ cs) = runes (drop sz bs) @ runes cs" .
    then show ?thesis using False d d2 le by (simp add: runes_step)
  qed
qed

lemma clean_Nil [simp]: "clean []"
  by (simp add: clean_def)

lemma clean_append_chunk:
  assumes "clean bs" and "DecodeRune p = (r, sz)" and "\<not> isBreakerRune r"
  shows "clean (bs @ take sz p)"
proof -
  from assms(3) have "r \<noteq> RuneError" by (auto simp add: isBreakerRune_def)
  from runes_chunk [OF assms(2) this] assms(1,3) show ?thesis
    by (simp add: clean_def runes_append [OF assms(1)])
qed

lemma latin_run_append:
  "latin_run bs \<Longrightarrow> latin_run cs \<Longrightarrow> latin_run (bs @ cs)"
  by (induction bs rule: latin_run.induct) (auto split: list.splits if_splits)

text \<open>A Latin-class rune is one ASCII byte or one two-byte character.\<close>

lemma latin_chunk:
  assumes "DecodeRune p = (r, sz)" and "\<not> isBreakerRune r" and "isLatin r"
  shows "latin_run (take sz p)"
proof (cases p)
  case Nil
  with assms show ?thesis by (simp add: isBreakerRune_def)
next
  case (Cons p0 ps)
  from assms(2) have ne: "r \<noteq> RuneError" by (auto simp add: isBreakerRune_def)
  from DecodeRune_valid [OF assms(1) [unfolded Cons] ne] assms(3)
  have "(sz = 1 \<and> uint p0 < 0x80) \<or>
        (sz = 2 \<and> 0xC2 \<le> uint p0 \<and> uint p0 < 0xE0 \<and> 1 \<le> length ps \<and> cont (ps ! 0))"
    by (auto simp add: isLatin_def)
  then show ?thesis unfolding Cons
    by (cases ps) (auto simp add: numeral_2_eq_2)
qed

lemma run_of_extend:
  "b \<le> pos \<Longrightarrow> run_of inp b (pos + sz) = run_of inp b pos @ take sz (drop pos inp)"
proof -
  assume "b \<le> pos"
  then have eq: "pos + sz - b = (pos - b) + sz" by simp
  show ?thesis unfolding run_of_def eq take_add using \<open>b \<le> pos\<close> by simp
qed

lemma run_of_self [simp]: "run_of inp pos pos = []"
  by (simp add: run_of_def)

lemma run_of_start: "run_of inp pos (pos + sz) = take sz (drop pos inp)"
  by (simp add: run_of_def)

lemma slice_run_of:
  "b \<le> pos \<Longrightarrow> pos \<le> length inp \<Longrightarrow> slice inp b pos = Inr (run_of inp b pos)"
  by (simp add: slice_def run_of_def)

subsection \<open>The output routines return\<close>

lemma byte_gt_127: "(127 < (c :: byte)) = (\<not> uint c < 0x80)"
  by (simp add: word_less_def not_less) linarith

lemma latinLoop_returns:
  "latin_run ibuf \<Longrightarrow> \<exists>buf. latinLoop ibuf acc = Inr buf"
proof (induction ibuf arbitrary: acc rule: latin_run.induct)
  case 1
  then show ?case by simp
next
  case (2 c cs)
  show ?case
  proof (cases "uint c < 0x80")
    case True
    with 2 show ?thesis by (simp add: byte_gt_127)
  next
    case False
    with 2(3) obtain c1 rest where cs: "cs = c1 # rest" and r: "latin_run rest"
      by (auto split: list.splits)
    from 2(2) [OF False cs r] False show ?thesis
      by (simp add: byte_gt_127 cs)
  qed
qed

lemma incrTokenCount_input [simp]: "input (incrTokenCount t n pos yield) = input t"
  by (simp add: incrTokenCount_def Let_def emit_def)

lemma incrTokenCount_begin [simp]: "begin' (incrTokenCount t n pos yield) = begin' t"
  by (simp add: incrTokenCount_def Let_def emit_def)

lemma outputLatin_returns:
  assumes "begin' t \<le> pos" and "pos \<le> length (input t)"
    and "latin_run (run_of (input t) (begin' t) pos)"
  shows "\<exists>t1. outputLatin t pos yield = Inr t1 \<and> input t1 = input t"
proof -
  from latinLoop_returns [OF assms(3), of "[]"] obtain buf
    where "latinLoop (run_of (input t) (begin' t) pos) [] = Inr buf" ..
  then show ?thesis
    by (simp add: outputLatin_def slice_run_of [OF assms(1,2)] Let_def emit_def)
qed

lemma outputCJK_loop_returns:
  "id' \<le> length ibuf \<Longrightarrow>
     \<exists>t1. outputCJK_loop t ibuf ia ib ic id' yield = Inr t1 \<and> input t1 = input t"
proof (induction t ibuf ia ib ic id' yield rule: outputCJK_loop.induct)
  case (1 t ibuf ia ib ic id' yield)
  let ?tok = "newToken (take (id' - ia) (drop ia ibuf)) (int (currTokenPos t))"
  let ?t2 = "incrTokenCount (emit ?tok t) 1 (begin' t + ia) yield"
  show ?case
  proof (cases "ia < id'")
    case False
    then show ?thesis by (simp add: outputCJK_loop.simps [of t ibuf ia ib ic id'])
  next
    case True
    then have sl: "slice ibuf ia id' = Inr (take (id' - ia) (drop ia ibuf))"
      using 1(2) by (simp add: slice_def)
    have sf: "sliceFrom ibuf id' = Inr (drop id' ibuf)"
      using 1(2) by (simp add: sliceFrom_def)
    show ?thesis
    proof (cases "yield (emitted t) ?tok \<and> \<not> Done ?t2")
      case False
      then show ?thesis using True sl
        by (auto simp add: outputCJK_loop.simps [of t ibuf ia ib ic id'] emit_def)
    next
      case c: True
      have le: "id' + snd (DecodeRune (drop id' ibuf)) \<le> length ibuf"
        using DecodeRune_size_le [of "drop id' ibuf"] 1(2) by simp
      from c have y: "yield (emitted t) ?tok" and nd: "\<not> Done ?t2" by simp_all
      from 1(1) [OF True sl _ _ sf le] y nd
      obtain t1 where "outputCJK_loop ?t2 ibuf ib ic id' (id' + snd (DecodeRune (drop id' ibuf))) yield = Inr t1"
        and "input t1 = input ?t2" by auto
      then show ?thesis using True sl sf y nd
        by (simp add: outputCJK_loop.simps [of t ibuf ia ib ic id'] emit_def)
    qed
  qed
qed

lemma outputCJK_returns:
  assumes "begin' t \<le> pos" and "pos \<le> length (input t)"
  shows "\<exists>t1. outputCJK t pos yield = Inr t1 \<and> input t1 = input t"
proof -
  let ?ibuf = "run_of (input t) (begin' t) pos"
  let ?ib = "snd (DecodeRune ?ibuf)"
  let ?ic = "?ib + snd (DecodeRune (drop ?ib ?ibuf))"
  let ?id = "?ic + snd (DecodeRune (drop ?ic ?ibuf))"
  have b: "?ib \<le> length ?ibuf" by (rule DecodeRune_size_le)
  have c: "?ic \<le> length ?ibuf"
    using DecodeRune_size_le [of "drop ?ib ?ibuf"] b by simp
  have d: "?id \<le> length ?ibuf"
    using DecodeRune_size_le [of "drop ?ic ?ibuf"] c by simp
  from outputCJK_loop_returns [OF d, of t 0 ?ib ?ic yield] show ?thesis
    using b c by (simp add: outputCJK_def slice_run_of [OF assms] sliceFrom_def Let_def)
qed

subsection \<open>The scan\<close>

lemma scan_inv_New: "scan_inv inp BeginToken (NewSimpleTokenizer inp) 0"
  by (simp add: scan_inv_def NewSimpleTokenizer_def)

lemma call_inv:
  assumes inv: "scan_inv inp h t pos" and lt: "pos < length inp"
    and d: "DecodeRune (drop pos inp) = (r, sz)"
  shows "\<exists>t1 h1. call h t pos r yield = Inr (t1, h1) \<and> scan_inv inp h1 t1 (pos + sz)"
proof -
  from inv have inp: "input t = inp" and b: "begin' t \<le> pos" and le: "pos \<le> length inp"
    by (simp_all add: scan_inv_def)
  have ne: "drop pos inp \<noteq> []" using lt by simp
  have sz1: "0 < sz" using DecodeRune_size_pos [OF ne] d by simp
  have sz2: "pos + sz \<le> length inp" using DecodeRune_size_le [of "drop pos inp"] d lt by simp
  have chunk: "run_of inp pos (pos + sz) = take sz (drop pos inp)" by (rule run_of_start)
  have ext: "run_of inp (begin' t) (pos + sz) = run_of inp (begin' t) pos @ take sz (drop pos inp)"
    by (rule run_of_extend [OF b])
  consider (brk) "isBreakerRune r" | (lat) "\<not> isBreakerRune r" "isLatin r"
    | (cjk) "\<not> isBreakerRune r" "\<not> isLatin r" by blast
  then show ?thesis
  proof cases
    case brk
    show ?thesis
    proof (cases h)
      case BeginToken
      then show ?thesis using brk inp sz1 sz2 by (simp add: beginToken_def scan_inv_def)
    next
      case BreakerToken
      then show ?thesis using brk inv sz2 by (simp add: breakerToken_def scan_inv_def)
    next
      case LatinToken
      with inv have "latin_run (run_of (input t) (begin' t) pos)" by (simp add: scan_inv_def)
      from outputLatin_returns [OF _ _ this, of yield] b le inp obtain t1
        where "outputLatin t pos yield = Inr t1" "input t1 = inp" by auto
      then show ?thesis using LatinToken brk sz1 sz2 by (simp add: latinToken_def scan_inv_def)
    next
      case CjkToken
      from outputCJK_returns [of t pos yield] b le inp obtain t1
        where "outputCJK t pos yield = Inr t1" "input t1 = inp" by auto
      then show ?thesis using CjkToken brk sz1 sz2 by (simp add: cjkToken_def scan_inv_def)
    qed
  next
    case lat
    have lc: "latin_run (take sz (drop pos inp))" by (rule latin_chunk [OF d lat])
    show ?thesis
    proof (cases h)
      case BeginToken
      then show ?thesis using lat inp sz2 lc by (simp add: beginToken_def scan_inv_def chunk)
    next
      case BreakerToken
      with inv have "begin' t < pos" by (simp add: scan_inv_def)
      then show ?thesis using BreakerToken lat inp sz2 lc lt
        by (simp add: breakerToken_def scan_inv_def chunk index_def Let_def)
    next
      case LatinToken
      with inv have "latin_run (run_of inp (begin' t) pos)" by (simp add: scan_inv_def)
      then show ?thesis using LatinToken lat inp sz2 lc b
        by (simp add: latinToken_def scan_inv_def ext latin_run_append)
    next
      case CjkToken
      with inv have "clean (run_of inp (begin' t) pos)" by (simp add: scan_inv_def)
      from clean_append_chunk [OF this d lat(1)] show ?thesis using CjkToken lat inp sz2 b
        by (simp add: cjkToken_def scan_inv_def ext)
    qed
  next
    case cjk
    have cc: "clean (take sz (drop pos inp))"
      using clean_append_chunk [OF clean_Nil d cjk(1)] by simp
    show ?thesis
    proof (cases h)
      case BeginToken
      then show ?thesis using cjk inp sz2 cc by (simp add: beginToken_def scan_inv_def chunk)
    next
      case BreakerToken
      with inv have "begin' t < pos" by (simp add: scan_inv_def)
      then show ?thesis using BreakerToken cjk inp sz2 cc lt
        by (simp add: breakerToken_def scan_inv_def chunk index_def Let_def)
    next
      case LatinToken
      with inv have "latin_run (run_of (input t) (begin' t) pos)" by (simp add: scan_inv_def)
      from outputLatin_returns [OF _ _ this, of yield] b le inp obtain t1
        where "outputLatin t pos yield = Inr t1" "input t1 = inp" by auto
      then show ?thesis using LatinToken cjk sz2 cc by (simp add: latinToken_def scan_inv_def chunk)
    next
      case CjkToken
      with inv have "clean (run_of inp (begin' t) pos)" by (simp add: scan_inv_def)
      from clean_append_chunk [OF this d cjk(1)] show ?thesis using CjkToken cjk inp sz2 b
        by (simp add: cjkToken_def scan_inv_def ext)
    qed
  qed
qed

lemma flush_returns:
  assumes inv: "scan_inv inp h t (length inp)"
  shows "\<exists>t1 h1. call h t (length inp) 0x20 yield = Inr (t1, h1) \<and> input t1 = inp"
proof -
  from inv have inp: "input t = inp" and b: "begin' t \<le> length inp" by (simp_all add: scan_inv_def)
  have brk: "isBreakerRune 0x20" by (simp add: isBreakerRune_def)
  show ?thesis
  proof (cases h)
    case BeginToken
    then show ?thesis using brk inp by (simp add: beginToken_def)
  next
    case BreakerToken
    then show ?thesis using brk inp by (simp add: breakerToken_def)
  next
    case LatinToken
    with inv have "latin_run (run_of (input t) (begin' t) (length (input t)))"
      by (simp add: scan_inv_def)
    from outputLatin_returns [OF _ _ this, of yield] b inp obtain t1
      where "outputLatin t (length inp) yield = Inr t1" "input t1 = inp" by auto
    then show ?thesis using LatinToken brk by (simp add: latinToken_def)
  next
    case CjkToken
    from outputCJK_returns [of t "length (input t)" yield] b inp obtain t1
      where "outputCJK t (length inp) yield = Inr t1" "input t1 = inp" by auto
    then show ?thesis using CjkToken brk by (simp add: cjkToken_def)
  qed
qed

lemma scanLoop_returns:
  assumes "scan_inv inp h t pos"
  shows "(\<exists>t1. scanLoop (range_string pos (drop pos inp)) h t yield = Inr (Returned t1)) \<or>
         (\<exists>t1 h1. scanLoop (range_string pos (drop pos inp)) h t yield = Inr (Finished t1 h1)
                   \<and> scan_inv inp h1 t1 (length inp))"
  using assms
proof (induction "length inp - pos" arbitrary: pos h t rule: less_induct)
  case less
  from less.prems have le: "pos \<le> length inp" by (simp add: scan_inv_def)
  show ?case
  proof (cases "pos = length inp")
    case True
    then show ?thesis using less.prems by (simp add: range_string.simps)
  next
    case False
    with le have lt: "pos < length inp" by simp
    then have ne: "drop pos inp \<noteq> []" by simp
    obtain r sz where d: "DecodeRune (drop pos inp) = (r, sz)" by (cases "DecodeRune (drop pos inp)")
    have sz1: "0 < sz" using DecodeRune_size_pos [OF ne] d by simp
    have rs: "range_string pos (drop pos inp) = (pos, r) # range_string (pos + sz) (drop (pos + sz) inp)"
      using ne d by (subst range_string.simps) (simp add: add.commute)
    show ?thesis
    proof (cases "Done t")
      case True
      then show ?thesis by (simp add: rs)
    next
      case nd: False
      from call_inv [OF less.prems lt d, of yield] obtain t1 h1
        where c: "call h t pos r yield = Inr (t1, h1)" and i: "scan_inv inp h1 t1 (pos + sz)" by blast
      have "length inp - (pos + sz) < length inp - pos" using lt sz1 by simp
      from less.hyps [OF this i] show ?thesis using nd c by (simp add: rs)
    qed
  qed
qed

lemma Tokenize_returns: "\<exists>t1. Tokenize (NewSimpleTokenizer inp) yield = Inr t1"
proof (cases "inp = []")
  case True
  then show ?thesis by (simp add: Tokenize_def NewSimpleTokenizer_def)
next
  case False
  have i: "input (NewSimpleTokenizer inp) = inp" by (simp add: NewSimpleTokenizer_def)
  from scanLoop_returns [OF scan_inv_New, of inp yield]
  show ?thesis
  proof
    assume "\<exists>t1. scanLoop (range_string 0 (drop 0 inp)) BeginToken (NewSimpleTokenizer inp) yield
                   = Inr (Returned t1)"
    then show ?thesis using False by (auto simp add: Tokenize_def i)
  next
    assume "\<exists>t1 h1. scanLoop (range_string 0 (drop 0 inp)) BeginToken (NewSimpleTokenizer inp) yield
                       = Inr (Finished t1 h1) \<and> scan_inv inp h1 t1 (length inp)"
    then obtain t1 h1
      where s: "scanLoop (range_string 0 inp) BeginToken (NewSimpleTokenizer inp) yield
                  = Inr (Finished t1 h1)"
        and v: "scan_inv inp h1 t1 (length inp)" by auto
    from v have "input t1 = inp" by (simp add: scan_inv_def)
    with flush_returns [OF v, of yield] s False show ?thesis
      by (auto simp add: Tokenize_def i)
  qed
qed

lemma range_string_offsets:
  "sorted_wrt (<) (map fst (range_string pos s)) \<and>
   list_all (\<lambda>p. pos \<le> p \<and> p < pos + length s) (map fst (range_string pos s))"
proof (induction "length s" arbitrary: pos s rule: less_induct)
  case less
  show ?case
  proof (cases "s = []")
    case True
    then show ?thesis by (simp add: range_string.simps)
  next
    case False
    let ?k = "snd (DecodeRune s)"
    have k1: "0 < ?k" by (rule DecodeRune_size_pos [OF False])
    have k2: "?k \<le> length s" by (rule DecodeRune_size_le)
    have "length (drop ?k s) < length s" using False k1 by simp
    from less [OF this, of "pos + ?k"]
    have ih1: "sorted_wrt (<) (map fst (range_string (pos + ?k) (drop ?k s)))"
      and ih2: "list_all (\<lambda>p. pos + ?k \<le> p \<and> p < pos + ?k + length (drop ?k s))
                  (map fst (range_string (pos + ?k) (drop ?k s)))" by simp_all
    from ih2 have a: "list_all (\<lambda>p. pos < p \<and> p < pos + length s)
                  (map fst (range_string (pos + ?k) (drop ?k s)))"
      using k1 k2 by (auto simp add: list_all_iff)
    have hd: "\<forall>p \<in> set (map fst (range_string (pos + ?k) (drop ?k s))). pos < p"
      using a by (auto simp add: list_all_iff)
    have rs: "range_string pos s = (pos, fst (DecodeRune s)) # range_string (pos + ?k) (drop ?k s)"
      using False by (subst range_string.simps) simp
    show ?thesis unfolding rs using ih1 a hd False
      by (auto simp add: list_all_iff)
  qed
qed

text \<open>
  Claim C9. The byte offsets of the iterations of the scan are strictly increasing (each
  iteration moves on by at least one byte) and stay inside the input; \<open>Tokenize\<close>
  returns, without a panic, on every input and for every consumer; and so does
  \<open>outputCJK\<close>, with its window-sliding loop, on every run \<open>input[begin:pos]\<close>.
\<close>

theorem scan_progress_and_termination:
  "sorted_wrt (<) (map fst (range_string 0 inp)) \<and>
   list_all (\<lambda>p. p < length inp) (map fst (range_string 0 inp)) \<and>
   (\<exists>t1. Tokenize (NewSimpleTokenizer inp) yield = Inr t1) \<and>
   (begin' t \<le> pos \<and> pos \<le> length (input t) \<longrightarrow> (\<exists>t1. outputCJK t pos yield = Inr t1))"
  using range_string_offsets [of 0 inp] Tokenize_returns [of inp yield]
    outputCJK_returns [of t pos yield]
  by auto

theorem scan_progress_and_termination_witness:
  "sorted_wrt (<) (map fst (range_string 0 [0x61, 0xE4, 0xB8, 0xAD])) \<and>
   (\<exists>t1. Tokenize (NewSimpleTokenizer [0x61, 0xE4, 0xB8, 0xAD]) (\<lambda>h tok. True) = Inr t1) \<and>
   (\<exists>t1. outputCJK (NewSimpleTokenizer [0xE4, 0xB8, 0xAD]) 3 (\<lambda>h tok. True) = Inr t1)"
  using scan_progress_and_termination [of "[0x61, 0xE4, 0xB8, 0xAD]" "\<lambda>h tok. True"
      "NewSimpleTokenizer [0xE4, 0xB8, 0xAD]" 3]
  by (simp add: NewSimpleTokenizer_def)


end
